theory Spec2Isabelle
  imports Complex_Main "HOL-Library.Log_Nat"
begin

section \<open>Data model (syncsub/models.py, syncsub/exceptions.py)\<close>

text \<open>
  A \<open>Segment\<close> is a dataclass with two float fields and a string (the field
  \<open>text\<close> is named \<open>seg_text\<close> here, \<open>text\<close> being a keyword). Times are modelled
  as reals and the arithmetic on them is taken exact (no rounding noise, no NaN, no
  infinities), with one exception, the padding \<open>x + 0.1\<close>, whose absorption by a large
  \<open>x\<close> is modelled (see \<open>add_tenth\<close> below). Strings are lists of characters; \<open>len\<close>
  is \<open>length\<close>.
\<close>

record segment =
  start_time :: real
  end_time :: real
  seg_text :: string

datatype error = FormattingError | ZeroDivisionError

section \<open>Python string primitives used by the formatter\<close>

text \<open>\<open>str.isspace\<close> on the code points below 256.\<close>

definition isspace :: "char \<Rightarrow> bool" where
  "isspace c = (c \<in> set [CHR 0x09, CHR 0x0A, CHR 0x0B, CHR 0x0C, CHR 0x0D,
                          CHR 0x1C, CHR 0x1D, CHR 0x1E, CHR 0x1F, CHR 0x20,
                          CHR 0x85, CHR 0xA0])"

text \<open>\<open>s.split()\<close>: the maximal runs of non-whitespace characters, in order.\<close>

fun split_ws_aux :: "string \<Rightarrow> string \<Rightarrow> string list" where
  "split_ws_aux cur [] = (if cur = [] then [] else [cur])"
| "split_ws_aux cur (c # cs) =
     (if isspace c then (if cur = [] then split_ws_aux [] cs else cur # split_ws_aux [] cs)
      else split_ws_aux (cur @ [c]) cs)"

definition split_ws :: "string \<Rightarrow> string list" where
  "split_ws s = split_ws_aux [] s"

text \<open>\<open>sep.join(xs)\<close>.\<close>

fun join :: "string \<Rightarrow> string list \<Rightarrow> string" where
  "join sep [] = []"
| "join sep [x] = x"
| "join sep (x # y # ys) = x @ sep @ join sep (y # ys)"

definition newline :: string where
  "newline = [CHR 0x0A]"

text \<open>\<open>s.split('\n')\<close>: always at least one piece.\<close>

fun split_nl :: "string \<Rightarrow> string list" where
  "split_nl [] = [[]]"
| "split_nl (c # cs) =
     (if c = CHR 0x0A then [] # split_nl cs
      else (case split_nl cs of [] \<Rightarrow> [[c]] | l # ls \<Rightarrow> (c # l) # ls))"

text \<open>\<open>xs[:n]\<close> for a Python int \<open>n\<close>: a negative bound counts from the end.\<close>

definition py_take :: "int \<Rightarrow> 'a list \<Rightarrow> 'a list" where
  "py_take n xs = (if 0 \<le> n then take (nat n) xs else take (nat (int (length xs) + n)) xs)"

text \<open>\<open>xs[a:b]\<close> for indices \<open>0 \<le> a\<close>, \<open>0 \<le> b\<close>.\<close>

definition py_slice :: "nat \<Rightarrow> nat \<Rightarrow> 'a list \<Rightarrow> 'a list" where
  "py_slice a b xs = take (b - a) (drop a xs)"

section \<open>format\_time\_srt (syncsub/utils.py)\<close>

text \<open>Python 3 \<open>round\<close>: to the nearest integer, ties to the even one.\<close>

definition py_round :: "real \<Rightarrow> int" where
  "py_round x =
     (let f = \<lfloor>x\<rfloor> in
      if x - of_int f < 1 / 2 then f
      else if 1 / 2 < x - of_int f then f + 1
      else if even f then f else f + 1)"

definition digit_char :: "nat \<Rightarrow> char" where
  "digit_char d = char_of (48 + d)"

fun digits :: "nat \<Rightarrow> string" where
  "digits n = (if n < 10 then [digit_char n] else digits (n div 10) @ [digit_char (n mod 10)])"

declare digits.simps [simp del]

text \<open>\<open>f"{n:0wd}"\<close> for \<open>n \<ge> 0\<close> (the clamp at 0 keeps every field non-negative).\<close>

definition zpad :: "nat \<Rightarrow> nat \<Rightarrow> string" where
  "zpad w n = replicate (w - length (digits n)) (CHR ''0'') @ digits n"

definition format_time_srt :: "real \<Rightarrow> string" where
  "format_time_srt seconds =
     (let secs0 = (if seconds < 0 then 0 else seconds);
          milliseconds = py_round (secs0 * 1000);
          hrs = milliseconds div 3600000;
          ms1 = milliseconds mod 3600000;
          mins = ms1 div 60000;
          ms2 = ms1 mod 60000;
          secs = ms2 div 1000;
          ms3 = ms2 mod 1000
      in zpad 2 (nat hrs) @ '':'' @ zpad 2 (nat mins) @ '':'' @ zpad 2 (nat secs) @ '','' @
         zpad 3 (nat ms3))"

section \<open>The padding \<open>x + 0.1\<close> in double arithmetic\<close>

text \<open>
  Rounding of a real to the nearest IEEE double, ties to even: finite doubles are the
  integer multiples of \<open>2 ^ -1074\<close> with at most 53 significant bits, so after scaling
  by \<open>2 ^ 1074\<close> the spacing at a magnitude of \<open>b\<close> bits is \<open>2 ^ (b - 53)\<close> (and 1 for
  subnormals). Overflow to infinity is not modelled.
\<close>

definition double_round :: "real \<Rightarrow> real" where
  "double_round x =
     (let s = \<bar>x\<bar> * 2 ^ 1074;
          u = (2::int) ^ nat (bitlen \<lfloor>s\<rfloor> - 53)
      in sgn x * real_of_int (py_round (s / real_of_int u) * u) / 2 ^ 1074)"

text \<open>The literal \<open>0.1\<close> is the double nearest to one tenth.\<close>

definition tenth :: real where
  "tenth = double_round (1 / 10)"

text \<open>
  The expression \<open>x + 0.1\<close> of lines 92, 157, 179 and 293. The code uses it to make a
  time window non-empty. In doubles the sum is \<open>double_round (x + tenth)\<close>; when that
  does not exceed \<open>x\<close> the padding is absorbed and the result is \<open>x\<close> itself (for a
  double \<open>x\<close> this happens from \<open>2 ^ 50\<close> on). Otherwise the sum is taken exact, as
  all other arithmetic here.
\<close>

definition add_tenth :: "real \<Rightarrow> real" where
  "add_tenth x = (if double_round (x + tenth) \<le> x then x else x + 1 / 10)"

section \<open>SRTFormatter.\_split\_segment\_by\_chars\<close>

text \<open>
  The functions return lists of \<open>Segment\<close> objects. The writer later assigns to
  \<open>segment.end_time\<close>, so it matters whether a returned list holds the argument object
  itself (\<open>return [segment]\<close>) or freshly constructed objects: \<open>Same\<close> is the former,
  \<open>Fresh\<close> the latter.
\<close>

datatype split_result = Same | Fresh "segment list"

fun segments_of :: "segment \<Rightarrow> split_result \<Rightarrow> segment list" where
  "segments_of seg Same = [seg]"
| "segments_of seg (Fresh xs) = xs"

text \<open>
  The mutable locals of the word loop. \<open>current_char_count\<close>, \<open>start_word_idx\<close>,
  \<open>num_desired_splits\<close>, \<open>block_chars\<close> of lines 151 and \<open>word_len\<close> are assigned but
  never read and are left out (the computation of \<open>num_desired_splits\<close> can raise and is
  kept in \<open>split_segment_by_chars\<close>).
\<close>

record chars_state =
  split_segments :: "segment list"
  current_line :: string
  current_start_time :: real
  processed_chars :: int
  lines_in_block :: "string list"

text \<open>
  Lines 153-157 and 177-179: the proportional end time, clamped to the segment's end,
  padded by \<open>+ 0.1\<close> when the window would be empty.
\<close>

definition sub_end_time :: "segment \<Rightarrow> real \<Rightarrow> int \<Rightarrow> real \<Rightarrow> real" where
  "sub_end_time seg cur pc tpc =
     (let e = min (cur + of_int pc * tpc) (end_time seg)
      in if e \<le> cur then add_tenth cur else e)"

text \<open>Lines 148-164: close the current line and the current block.\<close>

definition flush_line :: "segment \<Rightarrow> real \<Rightarrow> string \<Rightarrow> chars_state \<Rightarrow> chars_state" where
  "flush_line seg tpc word st =
     (let lines = lines_in_block st @ [current_line st];
          block_text = join newline lines;
          e = sub_end_time seg (current_start_time st) (processed_chars st) tpc
      in \<lparr>split_segments = split_segments st @
             [\<lparr>start_time = current_start_time st, end_time = e, seg_text = block_text\<rparr>],
          current_line = word,
          current_start_time = e,
          processed_chars = 0,
          lines_in_block = []\<rparr>)"

text \<open>Lines 173-186: the block formed right after a long line was added.\<close>

definition flush_block :: "segment \<Rightarrow> real \<Rightarrow> chars_state \<Rightarrow> chars_state" where
  "flush_block seg tpc st =
     (let block_text = join newline (lines_in_block st);
          block_chars = int (length block_text) - (int (length (lines_in_block st)) - 1);
          pc = processed_chars st + block_chars;
          e = sub_end_time seg (current_start_time st) pc tpc
      in \<lparr>split_segments = split_segments st @
             [\<lparr>start_time = current_start_time st, end_time = e, seg_text = block_text\<rparr>],
          current_line = [],
          current_start_time = e,
          processed_chars = 0,
          lines_in_block = []\<rparr>)"

text \<open>One iteration of \<open>for i, word in enumerate(words)\<close> (lines 142-201).\<close>

definition chars_step ::
  "segment \<Rightarrow> int \<Rightarrow> int \<Rightarrow> real \<Rightarrow> nat \<Rightarrow> nat \<Rightarrow> string \<Rightarrow> chars_state \<Rightarrow> chars_state" where
  "chars_step seg max_chars max_lines tpc nwords i word st =
     (let potential_line =
            (if current_line st \<noteq> [] then current_line st @ '' '' @ word else word)
      in if max_chars < int (length potential_line) then
           (let st1 = (if current_line st \<noteq> [] then flush_line seg tpc word st
                       else st\<lparr>current_line := word\<rparr>)
            in if max_chars div max_lines < int (length (current_line st1)) then
                 (let st2 = st1\<lparr>lines_in_block := lines_in_block st1 @ [current_line st1]\<rparr>
                  in if max_lines \<le> int (length (lines_in_block st2)) \<or> int i = int nwords - 1
                     then flush_block seg tpc st2
                     else st2)
               else st1\<lparr>lines_in_block := lines_in_block st1 @ [current_line st1],
                        processed_chars := processed_chars st1 + int (length (current_line st1)) + 1,
                        current_line := []\<rparr>)
         else
           (if max_chars div max_lines < int (length potential_line)
               \<and> int (length (lines_in_block st)) < max_lines - 1
            then st\<lparr>lines_in_block := lines_in_block st @ [potential_line],
                    processed_chars := processed_chars st + int (length potential_line) + 1,
                    current_line := []\<rparr>
            else st\<lparr>current_line := potential_line\<rparr>))"

text \<open>
  The word loop. Every iteration evaluates \<open>max_chars // max_lines\<close> (line 169 or
  line 197), which raises \<open>ZeroDivisionError\<close> when \<open>max_lines\<close> is 0.
\<close>

fun chars_loop ::
  "segment \<Rightarrow> int \<Rightarrow> int \<Rightarrow> real \<Rightarrow> nat \<Rightarrow> (nat \<times> string) list \<Rightarrow> chars_state
     \<Rightarrow> error + chars_state" where
  "chars_loop seg max_chars max_lines tpc nwords [] st = Inr st"
| "chars_loop seg max_chars max_lines tpc nwords ((i, word) # rest) st =
     (if max_lines = 0 then Inl ZeroDivisionError
      else chars_loop seg max_chars max_lines tpc nwords rest
             (chars_step seg max_chars max_lines tpc nwords i word st))"

text \<open>Lines 204-210: what is left after the loop becomes the last block.\<close>

definition final_flush :: "segment \<Rightarrow> chars_state \<Rightarrow> segment list" where
  "final_flush seg st =
     (let lines = (if current_line st \<noteq> [] then lines_in_block st @ [current_line st]
                   else lines_in_block st)
      in if lines \<noteq> [] then
           split_segments st @
             [\<lparr>start_time = current_start_time st, end_time = end_time seg,
               seg_text = join newline lines\<rparr>]
         else split_segments st)"

definition keep_segment :: "segment \<Rightarrow> bool" where
  "keep_segment s = (seg_text s \<noteq> [] \<and> start_time s < end_time s)"

text \<open>
  The whole helper. Line 132, \<open>num_desired_splits = (len(text) // max_chars) + 1\<close>, is
  reached when the text is longer than \<open>max_chars\<close> and has a word; its result is never
  used, but the integer division raises \<open>ZeroDivisionError\<close> when \<open>max_chars\<close> is 0.
\<close>

definition split_segment_by_chars :: "segment \<Rightarrow> int \<Rightarrow> int \<Rightarrow> error + split_result" where
  "split_segment_by_chars seg max_chars max_lines =
     (if int (length (seg_text seg)) \<le> max_chars then Inr Same
      else
        (let ws = split_ws (seg_text seg)
         in if ws = [] then Inr Same
            else if max_chars = 0 then Inl ZeroDivisionError
            else
              (let duration = end_time seg - start_time seg;
                   tpc = (if 0 < length (seg_text seg) then duration / real (length (seg_text seg))
                          else 0);
                   st0 = \<lparr>split_segments = [], current_line = [],
                          current_start_time = start_time seg, processed_chars = 0,
                          lines_in_block = []\<rparr>
               in case chars_loop seg max_chars max_lines tpc (length ws) (enumerate 0 ws) st0 of
                    Inl e \<Rightarrow> Inl e
                  | Inr st \<Rightarrow> Inr (Fresh (filter keep_segment (final_flush seg st))))))"

section \<open>SRTFormatter.\_split\_segment\<close>

text \<open>
  The loop \<open>for i in range(num_splits_duration)\<close> (lines 84-96), run over the list of
  its indices. It runs only when \<open>num_splits_duration > 0\<close>, so \<open>words_per_split\<close> is
  a natural number there. \<open>continue\<close> leaves the clock and the word index as they are.
\<close>

fun duration_loop ::
  "segment \<Rightarrow> real \<Rightarrow> string list \<Rightarrow> nat \<Rightarrow> int \<Rightarrow> nat list \<Rightarrow> real \<Rightarrow> nat \<Rightarrow> segment list" where
  "duration_loop seg split_duration ws wps n [] current_time start_word_idx = []"
| "duration_loop seg split_duration ws wps n (i # is) current_time start_word_idx =
     (let end_word_idx = (if int i < n - 1 then min (start_word_idx + wps) (length ws)
                          else length ws);
          sub_text = join '' '' (py_slice start_word_idx end_word_idx ws)
      in if sub_text = [] then
           duration_loop seg split_duration ws wps n is current_time start_word_idx
         else
           (let sub_start = current_time;
                sub_end0 = min (current_time + split_duration) (end_time seg);
                sub_end = (if sub_end0 \<le> sub_start then add_tenth sub_start else sub_end0)
            in \<lparr>start_time = sub_start, end_time = sub_end, seg_text = sub_text\<rparr> #
               duration_loop seg split_duration ws wps n is sub_end end_word_idx))"

text \<open>Lines 100-102: every duration chunk goes through the character splitter.\<close>

fun extend_by_chars :: "segment list \<Rightarrow> int \<Rightarrow> int \<Rightarrow> error + segment list" where
  "extend_by_chars [] max_chars max_lines = Inr []"
| "extend_by_chars (s # ss) max_chars max_lines =
     (case split_segment_by_chars s max_chars max_lines of
        Inl e \<Rightarrow> Inl e
      | Inr r \<Rightarrow>
          (case extend_by_chars ss max_chars max_lines of
             Inl e \<Rightarrow> Inl e
           | Inr rest \<Rightarrow> Inr (segments_of s r @ rest)))"

text \<open>
  Lines 73-104, the branch taken when \<open>duration > max_duration * 1.5\<close>. The float floor
  division \<open>duration // max_duration\<close> raises when \<open>max_duration\<close> is 0, and
  \<open>duration / num_splits_duration\<close> raises when the count is 0. \<open>None\<close> is the fall-through
  to the character check when no chunk was produced.
\<close>

definition duration_split ::
  "segment \<Rightarrow> int \<Rightarrow> real \<Rightarrow> int \<Rightarrow> error + segment list option" where
  "duration_split seg max_chars max_duration max_lines =
     (let duration = end_time seg - start_time seg
      in if max_duration = 0 then Inl ZeroDivisionError
         else
           (let n = \<lfloor>duration / max_duration\<rfloor> + 1
            in if n = 0 then Inl ZeroDivisionError
               else
                 (let split_duration = duration / of_int n;
                      ws = split_ws (seg_text seg);
                      wps = (if 0 < n then int (length ws) div n else int (length ws));
                      chunks = duration_loop seg split_duration ws (nat wps) n [0..<nat n]
                                 (start_time seg) 0
                  in if chunks \<noteq> [] then
                       (case extend_by_chars chunks max_chars max_lines of
                          Inl e \<Rightarrow> Inl e
                        | Inr final_segments \<Rightarrow> Inr (Some final_segments))
                     else Inr None)))"

definition split_segment :: "segment \<Rightarrow> int \<Rightarrow> real \<Rightarrow> int \<Rightarrow> error + split_result" where
  "split_segment seg max_chars max_duration max_lines =
     (let duration = end_time seg - start_time seg
      in case (if max_duration * (3 / 2) < duration
               then duration_split seg max_chars max_duration max_lines
               else Inr None) of
           Inl e \<Rightarrow> Inl e
         | Inr (Some final_segments) \<Rightarrow> Inr (Fresh final_segments)
         | Inr None \<Rightarrow>
             (if max_chars < int (length (seg_text seg))
              then split_segment_by_chars seg max_chars max_lines
              else Inr Same))"

section \<open>SRTFormatter.format\_subtitles\<close>

text \<open>Lines 263-281: the word wrap of one line that is longer than the per-line cap.\<close>

fun wrap_loop :: "int \<Rightarrow> string list \<Rightarrow> string \<Rightarrow> int \<Rightarrow> string list" where
  "wrap_loop m [] wrapped_line line_len = [wrapped_line]"
| "wrap_loop m (word # rest) wrapped_line line_len =
     (if line_len = 0 then wrap_loop m rest (wrapped_line @ word) (line_len + int (length word))
      else if line_len + int (length word) + 1 \<le> m
        then wrap_loop m rest (wrapped_line @ '' '' @ word) (line_len + int (length word) + 1)
      else wrapped_line # wrap_loop m rest word (int (length word)))"

definition wrap_line :: "int \<Rightarrow> string \<Rightarrow> string list" where
  "wrap_line m line = (if m < int (length line) then wrap_loop m (split_ws line) [] 0 else [line])"

definition final_lines :: "int \<Rightarrow> string \<Rightarrow> string list" where
  "final_lines m txt = concat (map (wrap_line m) (split_nl txt))"

text \<open>
  A cue block as it is written: the index, the two times at the moment they are
  formatted, their formatted strings, and the lines kept by
  \<open>final_lines[:max_lines_per_block]\<close>.
\<close>

record cue =
  index :: nat
  cue_start :: real
  cue_end :: real
  start_time_str :: string
  end_time_str :: string
  cue_lines :: "string list"

text \<open>Lines 290-294: the assignment \<open>segment.end_time = segment.start_time + 0.1\<close>.\<close>

definition pad_segment :: "segment \<Rightarrow> segment" where
  "pad_segment seg =
     (if end_time seg \<le> start_time seg then seg\<lparr>end_time := add_tenth (start_time seg)\<rparr>
      else seg)"

definition mk_cue :: "int \<Rightarrow> int \<Rightarrow> nat \<Rightarrow> segment \<Rightarrow> cue" where
  "mk_cue max_chars_per_segment max_lines_per_block subtitle_index seg =
     \<lparr>index = subtitle_index,
      cue_start = start_time seg,
      cue_end = end_time (pad_segment seg),
      start_time_str = format_time_srt (start_time seg),
      end_time_str = format_time_srt (end_time (pad_segment seg)),
      cue_lines = py_take max_lines_per_block (final_lines max_chars_per_segment (seg_text seg))\<rparr>"

text \<open>The three \<open>f.write\<close> calls of one block (lines 297-299).\<close>

definition cue_writes :: "cue \<Rightarrow> string list" where
  "cue_writes c =
     [digits (index c) @ newline,
      start_time_str c @ '' --> '' @ end_time_str c @ newline,
      join newline (cue_lines c) @ newline @ newline]"

text \<open>
  The output stream is the environment: opening it can fail, the \<open>k\<close>-th call of
  \<open>write\<close> (counted from 0) can fail, or closing it at the end of the \<open>with\<close> block
  can fail. All three raise inside the \<open>try\<close>.
\<close>

datatype io_fault = NoFault | OpenFails | WriteFails nat | CloseFails

fun do_writes :: "io_fault \<Rightarrow> string list \<Rightarrow> string list \<Rightarrow> bool \<times> string list" where
  "do_writes fault done [] = (True, done)"
| "do_writes fault done (w # ws) =
     (if fault = WriteFails (length done) then (False, done)
      else do_writes fault (done @ [w]) ws)"

text \<open>
  What a call leaves behind: the exception raised (if any), the blocks written in
  full, the successful \<open>write\<close> calls, and the heap of \<open>Segment\<close> objects.
\<close>

record outcome =
  raised :: "error option"
  blocks :: "cue list"
  written :: "string list"
  heap :: "segment list"

text \<open>
  Lines 246-254. \<open>Segment\<close> objects live in a heap addressed by position; the input
  list holds the addresses \<open>0 ..< length segs\<close>. A result \<open>Same\<close> puts the input
  object's own address into \<open>formatted_segments\<close>; fresh objects are allocated at the
  end of the heap.
\<close>

fun split_all ::
  "int \<Rightarrow> real \<Rightarrow> int \<Rightarrow> nat list \<Rightarrow> nat list \<Rightarrow> segment list
     \<Rightarrow> error + (nat list \<times> segment list)" where
  "split_all max_chars max_duration max_lines [] formatted h = Inr (formatted, h)"
| "split_all max_chars max_duration max_lines (r # rs) formatted h =
     (case split_segment (h ! r) max_chars max_duration max_lines of
        Inl e \<Rightarrow> Inl e
      | Inr Same \<Rightarrow> split_all max_chars max_duration max_lines rs (formatted @ [r]) h
      | Inr (Fresh xs) \<Rightarrow>
          split_all max_chars max_duration max_lines rs
            (formatted @ [length h ..< length h + length xs]) (h @ xs))"

text \<open>Lines 259-300: the loop over \<open>formatted_segments\<close> inside the \<open>with\<close> block.\<close>

fun write_loop :: "io_fault \<Rightarrow> int \<Rightarrow> int \<Rightarrow> nat list \<Rightarrow> nat \<Rightarrow> outcome \<Rightarrow> outcome" where
  "write_loop fault mcps mlpb [] subtitle_index out = out"
| "write_loop fault mcps mlpb (r # rs) subtitle_index out =
     (let seg = heap out ! r;
          c = mk_cue mcps mlpb subtitle_index seg;
          h = (heap out)[r := pad_segment seg]
      in case do_writes fault (written out) (cue_writes c) of
           (False, w) \<Rightarrow> out\<lparr>raised := Some FormattingError, written := w, heap := h\<rparr>
         | (True, w) \<Rightarrow>
             write_loop fault mcps mlpb rs (subtitle_index + 1)
               (out\<lparr>blocks := blocks out @ [c], written := w, heap := h\<rparr>))"

text \<open>
  The whole method. The splitting runs before the \<open>try\<close>, so an exception there
  propagates unchanged; everything raised inside the \<open>try\<close> becomes \<open>FormattingError\<close>.
\<close>

definition format_subtitles :: "io_fault \<Rightarrow> segment list \<Rightarrow> int \<Rightarrow> real \<Rightarrow> int \<Rightarrow> outcome" where
  "format_subtitles fault segs max_chars_per_segment max_duration_seconds max_lines_per_block =
     (let max_chars_combined = max_chars_per_segment * max_lines_per_block
      in case split_all max_chars_combined max_duration_seconds max_lines_per_block
                [0..<length segs] [] segs of
           Inl e \<Rightarrow> \<lparr>raised = Some e, blocks = [], written = [], heap = segs\<rparr>
         | Inr (formatted, h) \<Rightarrow>
             (if fault = OpenFails
              then \<lparr>raised = Some FormattingError, blocks = [], written = [], heap = h\<rparr>
              else
                (let out = write_loop fault max_chars_per_segment max_lines_per_block formatted 1
                             \<lparr>raised = None, blocks = [], written = [], heap = h\<rparr>
                 in if raised out = None \<and> fault = CloseFails
                    then out\<lparr>raised := Some FormattingError\<rparr>
                    else out)))"

section \<open>Notions used in the statements\<close>

text \<open>The list of \<open>Segment\<close> values that \<open>_split_segment\<close> returns for one input.\<close>

definition derived :: "segment \<Rightarrow> int \<Rightarrow> real \<Rightarrow> int \<Rightarrow> segment list" where
  "derived seg max_chars max_duration max_lines =
     (case split_segment seg max_chars max_duration max_lines of
        Inl e \<Rightarrow> [] | Inr r \<Rightarrow> segments_of seg r)"





section \<open>Concrete inputs\<close>

text \<open>The segments of Scenarios A, B, D and E of the specification.\<close>

definition scenario_a :: segment where
  "scenario_a = \<lparr>start_time = 0, end_time = 5, seg_text = ''Hello world''\<rparr>"

definition scenario_b_text :: string where
  "scenario_b_text = join '' '' (replicate 100 ''word'')"

definition scenario_b :: segment where
  "scenario_b = \<lparr>start_time = 0, end_time = 20, seg_text = scenario_b_text\<rparr>"

definition scenario_d :: segment where
  "scenario_d = \<lparr>start_time = 5, end_time = 5, seg_text = ''hi''\<rparr>"



text \<open>A text with a word longer than a line of 10 characters, after a shorter line.\<close>

definition long_word_example :: segment where
  "long_word_example =
     \<lparr>start_time = 0, end_time = 4, seg_text = ''a great internationalization effort here''\<rparr>"


text \<open>
  A segment of 50 milliseconds whose text needs several blocks of 5 characters, and
  the segment that follows it.
\<close>

definition tiny_long_segment :: segment where
  "tiny_long_segment = \<lparr>start_time = 0, end_time = 1 / 20, seg_text = ''aaa bbb ccc ddd eee''\<rparr>"

definition next_segment :: segment where
  "next_segment = \<lparr>start_time = 1 / 20, end_time = 1, seg_text = ''x''\<rparr>"



section \<open>Basic facts\<close>

subsection \<open>The padding in doubles\<close>

text \<open>
  Rounding to a double moves a value of magnitude below \<open>2 ^ (m - 1074)\<close> by at most
  half a unit in the last place; so \<open>0.1\<close> lies between \<open>1 / 16\<close> and \<open>1 / 8\<close>, and up
  to \<open>2 ^ 49\<close> seconds the padding is not absorbed.
\<close>

lemma py_round_error: "\<bar>real_of_int (py_round z) - z\<bar> \<le> 1 / 2"
proof -
  have "real_of_int \<lfloor>z\<rfloor> \<le> z" "z < real_of_int \<lfloor>z\<rfloor> + 1" by linarith+
  then show ?thesis by (auto simp: py_round_def Let_def)
qed

lemma double_round_error:
  assumes "\<bar>y\<bar> * 2 ^ 1074 < 2 ^ m" and "54 \<le> m"
  shows "\<bar>double_round y - y\<bar> \<le> 2 ^ (m - 54) / 2 ^ 1074"
proof -
  define K where "K = (2::real) ^ 1074"
  have K: "0 < K" unfolding K_def by (rule zero_less_power) simp
  define s where "s = \<bar>y\<bar> * K"
  define n where "n = \<lfloor>s\<rfloor>"
  define u where "u = (2::int) ^ nat (bitlen n - 53)"
  define r where "r = py_round (s / real_of_int u)"
  from assms(1) have sm: "s < 2 ^ m" unfolding s_def K_def .
  from sm have "n < 2 ^ m" unfolding n_def by (simp add: floor_less_iff)
  then have "bitlen n \<le> int m" by (simp add: bitlen_le_iff_power)
  then have "nat (bitlen n - 53) \<le> m - 53" using assms(2) by linarith
  then have "u \<le> 2 ^ (m - 53)" unfolding u_def by (intro power_increasing) simp_all
  then have "real_of_int u \<le> real_of_int (2 ^ (m - 53))" by (simp only: of_int_le_iff)
  then have ur: "real_of_int u \<le> 2 ^ (m - 53)" by simp
  have upos: "0 < real_of_int u" by (simp add: u_def)
  have "\<bar>real_of_int r - s / real_of_int u\<bar> \<le> 1 / 2" unfolding r_def by (rule py_round_error)
  then have "\<bar>real_of_int r - s / real_of_int u\<bar> * real_of_int u \<le> 1 / 2 * real_of_int u"
    using upos by (intro mult_right_mono) simp_all
  moreover have "\<bar>real_of_int r - s / real_of_int u\<bar> * real_of_int u
                 = \<bar>(real_of_int r - s / real_of_int u) * real_of_int u\<bar>"
    using upos by (simp add: abs_mult)
  moreover have "(real_of_int r - s / real_of_int u) * real_of_int u = real_of_int r * real_of_int u - s"
    using upos by (simp add: left_diff_distrib)
  ultimately have e: "\<bar>real_of_int r * real_of_int u - s\<bar> \<le> real_of_int u / 2" by simp
  from assms(2) have "m - 53 = Suc (m - 54)" by linarith
  then have "(2::real) ^ (m - 53) = 2 * 2 ^ (m - 54)" by simp
  with ur e have e2: "\<bar>real_of_int r * real_of_int u - s\<bar> \<le> 2 ^ (m - 54)" by linarith
  have dr: "double_round y = sgn y * (real_of_int r * real_of_int u) / K"
    unfolding double_round_def Let_def K_def[symmetric] s_def[symmetric] n_def[symmetric]
      u_def[symmetric] r_def[symmetric] by simp
  have "sgn y * \<bar>y\<bar> = y" by (simp add: sgn_real_def)
  then have y: "y = sgn y * s / K" using K by (simp add: s_def)
  have "double_round y - y = sgn y * (real_of_int r * real_of_int u) / K - sgn y * s / K"
    using dr y by simp
  also have "\<dots> = sgn y * (real_of_int r * real_of_int u - s) / K"
    by (simp add: right_diff_distrib diff_divide_distrib)
  finally have "\<bar>double_round y - y\<bar> = \<bar>sgn y\<bar> * \<bar>real_of_int r * real_of_int u - s\<bar> / K"
    using K by (simp add: abs_mult)
  also have "\<dots> \<le> 1 * \<bar>real_of_int r * real_of_int u - s\<bar> / K"
    using K by (intro divide_right_mono mult_right_mono) (simp_all add: sgn_real_def)
  also have "\<dots> \<le> 2 ^ (m - 54) / K"
    using e2 K by (simp add: divide_right_mono)
  finally show ?thesis unfolding K_def .
qed

lemma tenth_bounds: "1 / 16 < tenth \<and> tenth < 1 / 8"
proof -
  have "\<bar>1 / 10 :: real\<bar> * 2 ^ 1074 < 2 ^ 1071"
  proof -
    have "(2::real) ^ 1074 = 8 * 2 ^ 1071" by (simp add: power_add[of 2 3 1071, simplified])
    moreover have "(0::real) < 2 ^ 1071" by simp
    ultimately show ?thesis by linarith
  qed
  from double_round_error[OF this] have "\<bar>tenth - 1 / 10\<bar> \<le> 2 ^ 1017 / 2 ^ 1074"
    by (simp add: tenth_def)
  moreover have "(2::real) ^ 1017 / 2 ^ 1074 = 1 / 2 ^ 57"
    by (simp add: power_diff[of 2 1017 1074, symmetric] divide_simps power_add[symmetric])
  moreover have "(1::real) / 2 ^ 57 < 1 / 100" by simp
  ultimately show ?thesis by linarith
qed

lemma not_absorbed:
  assumes "\<bar>x\<bar> \<le> 2 ^ 49"
  shows "x < double_round (x + tenth)"
proof -
  define K where "K = (2::real) ^ 1074"
  have K: "0 < K" unfolding K_def by (rule zero_less_power) simp
  from tenth_bounds assms have "\<bar>x + tenth\<bar> < 2 ^ 50" by (simp add: abs_if split: if_splits)
  then have "\<bar>x + tenth\<bar> * K < 2 ^ 50 * K" using K by simp
  also have "2 ^ 50 * K = 2 ^ 1124" unfolding K_def by (simp only: power_add[symmetric]) simp
  finally have "\<bar>x + tenth\<bar> * 2 ^ 1074 < 2 ^ 1124" unfolding K_def .
  from double_round_error[OF this]
  have "\<bar>double_round (x + tenth) - (x + tenth)\<bar> \<le> 2 ^ 1070 / 2 ^ 1074" by simp
  moreover have "(2::real) ^ 1074 = 16 * 2 ^ 1070" by (simp add: power_add[of 2 4 1070, simplified])
  then have "(2::real) ^ 1070 / 2 ^ 1074 = 1 / 16" by simp
  ultimately show ?thesis using tenth_bounds by linarith
qed

lemma add_tenth_small: "\<bar>x\<bar> \<le> 2 ^ 49 \<Longrightarrow> add_tenth x = x + 1 / 10"
  using not_absorbed[of x] by (simp add: add_tenth_def)


lemma add_tenth_code [code]:
  "add_tenth x = (if \<bar>x\<bar> \<le> 2 ^ 49 then x + 1 / 10
                  else if double_round (x + tenth) \<le> x then x else x + 1 / 10)"
  by (simp add: add_tenth_small) (simp add: add_tenth_def)




subsection \<open>The write loop and the heap\<close>

lemma pad_segment_idem: "pad_segment (pad_segment s) = pad_segment s"
  by (simp add: pad_segment_def)







lemma do_writes_NoFault: "do_writes NoFault acc ws = (True, acc @ ws)"
  by (induction ws arbitrary: acc) auto

lemma write_loop_NoFault_blocks:
  "distinct rs \<Longrightarrow>
   blocks (write_loop NoFault m l rs idx out) =
     blocks out @ map (\<lambda>(i, r). mk_cue m l i (heap out ! r)) (zip [idx..<idx + length rs] rs)"
proof (induction rs arbitrary: idx out)
  case Nil
  then show ?case by simp
next
  case (Cons r rs)
  define c where "c = mk_cue m l idx (heap out ! r)"
  define out1 where "out1 = out\<lparr>blocks := blocks out @ [c], written := written out @ cue_writes c,
                          heap := (heap out)[r := pad_segment (heap out ! r)]\<rparr>"
  have step: "write_loop NoFault m l (r # rs) idx out = write_loop NoFault m l rs (Suc idx) out1"
    by (simp add: Let_def do_writes_NoFault out1_def c_def)
  have same: "heap out1 ! r' = heap out ! r'" if "r' \<in> set rs" for r'
  proof -
    from that Cons.prems have "r \<noteq> r'" by auto
    then show ?thesis by (simp add: out1_def)
  qed
  have eq: "map (\<lambda>(i, r'). mk_cue m l i (heap out1 ! r')) (zip [Suc idx..<Suc idx + length rs] rs)
          = map (\<lambda>(i, r'). mk_cue m l i (heap out ! r')) (zip [Suc idx..<Suc idx + length rs] rs)"
    by (rule map_cong) (auto dest: set_zip_rightD simp: same)
  have upt: "[idx..<idx + length (r # rs)] = idx # [Suc idx..<Suc idx + length rs]"
    by (simp add: upt_conv_Cons del: upt_Suc)
  from Cons.prems have "distinct rs" by simp
  from Cons.IH[OF this, of "Suc idx" out1] eq
  show ?case unfolding step upt by (simp add: out1_def c_def)
qed

lemma write_loop_NoFault_raised: "raised (write_loop NoFault m l rs idx out) = raised out"
  by (induction rs arbitrary: idx out) (simp_all add: Let_def do_writes_NoFault)

lemma split_all_spec:
  assumes "split_all mc md ml rs fmt h = Inr (fmt', h')" and "\<forall>r \<in> set rs. r < length h"
  shows "\<exists>new ys. fmt' = fmt @ new \<and> h' = h @ ys
           \<and> map ((!) h') new = concat (map (\<lambda>r. derived (h ! r) mc md ml) rs)
           \<and> (\<forall>a \<in> set new. a \<in> set rs \<or> length h \<le> a)
           \<and> (distinct rs \<longrightarrow> distinct new)"
  using assms
proof (induction rs arbitrary: fmt h)
  case Nil
  then show ?case by simp
next
  case (Cons r rs)
  from Cons.prems(2) have r: "r < length h" and rs: "\<forall>r \<in> set rs. r < length h" by simp_all
  show ?case
  proof (cases "split_segment (h ! r) mc md ml")
    case (Inl e)
    with Cons.prems(1) show ?thesis by simp
  next
    case (Inr res)
    show ?thesis
    proof (cases res)
      case Same
      with Inr Cons.prems(1) have "split_all mc md ml rs (fmt @ [r]) h = Inr (fmt', h')" by simp
      from Cons.IH[OF this rs] obtain new ys where
        n: "fmt' = (fmt @ [r]) @ new" "h' = h @ ys"
           "map ((!) h') new = concat (map (\<lambda>r. derived (h ! r) mc md ml) rs)"
           "\<forall>a \<in> set new. a \<in> set rs \<or> length h \<le> a"
           "distinct rs \<longrightarrow> distinct new"
        by blast
      have d: "derived (h ! r) mc md ml = [h ! r]" using Inr Same by (simp add: derived_def)
      have hr: "h' ! r = h ! r" using n(2) r by (simp add: nth_append)
      have "fmt' = fmt @ (r # new)" using n(1) by simp
      moreover have "map ((!) h') (r # new) = concat (map (\<lambda>r. derived (h ! r) mc md ml) (r # rs))"
        using n(3) d hr by simp
      moreover have "\<forall>a \<in> set (r # new). a \<in> set (r # rs) \<or> length h \<le> a" using n(4) by auto
      moreover have "distinct (r # rs) \<longrightarrow> distinct (r # new)" using n(4,5) r by auto
      ultimately show ?thesis using n(2) by blast
    next
      case (Fresh xs)
      let ?h1 = "h @ xs"
      let ?a = "[length h..<length h + length xs]"
      from Fresh Inr Cons.prems(1)
      have sa: "split_all mc md ml rs (fmt @ ?a) ?h1 = Inr (fmt', h')" by simp
      have rs1: "\<forall>r \<in> set rs. r < length ?h1" using rs by auto
      from Cons.IH[OF sa rs1] obtain new ys where
        n: "fmt' = (fmt @ ?a) @ new" "h' = ?h1 @ ys"
           "map ((!) h') new = concat (map (\<lambda>r. derived (?h1 ! r) mc md ml) rs)"
           "\<forall>a \<in> set new. a \<in> set rs \<or> length ?h1 \<le> a"
           "distinct rs \<longrightarrow> distinct new"
        by blast
      have d: "derived (h ! r) mc md ml = xs" using Inr Fresh by (simp add: derived_def)
      have same: "map (\<lambda>r. derived (?h1 ! r) mc md ml) rs = map (\<lambda>r. derived (h ! r) mc md ml) rs"
        using rs by (auto simp: nth_append)
      have "map ((!) h') ?a = map ((!) (h @ (xs @ ys))) ?a" using n(2) by simp
      also have "\<dots> = xs @ []"
        by (rule nth_equalityI) (auto simp: nth_append)
      finally have ma: "map ((!) h') ?a = xs" by simp
      have "fmt' = fmt @ (?a @ new)" using n(1) by simp
      moreover have "h' = h @ (xs @ ys)" using n(2) by simp
      moreover have "map ((!) h') (?a @ new) = concat (map (\<lambda>r. derived (h ! r) mc md ml) (r # rs))"
        using n(3) d ma same by simp
      moreover have "\<forall>a \<in> set (?a @ new). a \<in> set (r # rs) \<or> length h \<le> a" using n(4) by auto
      moreover have "distinct (r # rs) \<longrightarrow> distinct (?a @ new)" using n(4,5) rs by fastforce
      ultimately show ?thesis by blast
    qed
  qed
qed

lemma split_all_Inr:
  assumes "\<forall>r \<in> set rs. r < length h \<and> (\<exists>x. split_segment (h ! r) mc md ml = Inr x)"
  shows "\<exists>p. split_all mc md ml rs fmt h = Inr p"
  using assms
proof (induction rs arbitrary: fmt h)
  case Nil
  then show ?case by simp
next
  case (Cons r rs)
  then obtain x where x: "split_segment (h ! r) mc md ml = Inr x" by auto
  show ?case
  proof (cases x)
    case Same
    with x Cons show ?thesis by simp
  next
    case (Fresh xs)
    have "\<forall>r \<in> set rs. r < length (h @ xs) \<and> (\<exists>x. split_segment ((h @ xs) ! r) mc md ml = Inr x)"
      using Cons.prems by (auto simp: nth_append)
    from Cons.IH[OF this] Fresh x show ?thesis by simp
  qed
qed

lemma format_subtitles_NoFault_blocks:
  assumes "split_all (mcps * ml) md ml [0..<length segs] [] segs = Inr (fmt, h)"
  shows "blocks (format_subtitles NoFault segs mcps md ml) =
           map (\<lambda>(i, s). mk_cue mcps ml i s)
             (zip [1..<1 + length (concat (map (\<lambda>s. derived s (mcps * ml) md ml) segs))]
                  (concat (map (\<lambda>s. derived s (mcps * ml) md ml) segs)))"
proof -
  let ?vs = "concat (map (\<lambda>s. derived s (mcps * ml) md ml) segs)"
  from split_all_spec[OF assms] obtain ys where
    h: "h = segs @ ys" and
    vs: "map ((!) h) fmt = concat (map (\<lambda>r. derived (segs ! r) (mcps * ml) md ml) [0..<length segs])"
    and d: "distinct fmt"
    by auto
  have "map (\<lambda>r. derived (segs ! r) (mcps * ml) md ml) [0..<length segs]
        = map (\<lambda>s. derived s (mcps * ml) md ml) (map ((!) segs) [0..<length segs])"
    by simp
  also have "\<dots> = map (\<lambda>s. derived s (mcps * ml) md ml) segs"
    by (simp only: map_nth)
  finally have vs': "map ((!) h) fmt = ?vs" using vs by simp
  then have len: "length ?vs = length fmt" by (metis length_map)
  have "blocks (format_subtitles NoFault segs mcps md ml)
        = map (\<lambda>(i, r). mk_cue mcps ml i (h ! r)) (zip [1..<1 + length fmt] fmt)"
    using assms write_loop_NoFault_blocks[OF d, of mcps ml 1
              "\<lparr>raised = None, blocks = [], written = [], heap = h\<rparr>"]
    by (simp add: format_subtitles_def Let_def)
  also have "\<dots> = map (\<lambda>(i, s). mk_cue mcps ml i s) (zip [1..<1 + length fmt] (map ((!) h) fmt))"
    by (simp add: zip_map2 case_prod_unfold)
  finally show ?thesis using vs' len by simp
qed

lemma format_subtitles_NoFault_raised:
  assumes "split_all (mcps * ml) md ml [0..<length segs] [] segs = Inr p"
  shows "raised (format_subtitles NoFault segs mcps md ml) = None"
  using assms by (cases p) (simp add: format_subtitles_def Let_def write_loop_NoFault_raised)

lemma format_subtitles_split_error:
  assumes "split_all (mcps * ml) md ml [0..<length segs] [] segs = Inl e"
  shows "format_subtitles fault segs mcps md ml = \<lparr>raised = Some e, blocks = [], written = [], heap = segs\<rparr>"
  using assms by (simp add: format_subtitles_def)

lemma nth_update_pad:
  "(h[r := pad_segment (h ! r)]) ! a = h ! a \<or> (h[r := pad_segment (h ! r)]) ! a = pad_segment (h ! a)"
proof (cases "a = r \<and> r < length h")
  case True
  then show ?thesis by simp
next
  case False
  then show ?thesis by (cases "a = r") (simp_all add: list_update_beyond)
qed

lemma write_loop_heap:
  "heap (write_loop f m l rs idx out) ! a = heap out ! a
   \<or> heap (write_loop f m l rs idx out) ! a = pad_segment (heap out ! a)"
proof (induction rs arbitrary: idx out)
  case Nil
  then show ?case by simp
next
  case (Cons r rs)
  let ?c = "mk_cue m l idx (heap out ! r)"
  let ?h1 = "(heap out)[r := pad_segment (heap out ! r)]"
  have h1: "?h1 ! a = heap out ! a \<or> ?h1 ! a = pad_segment (heap out ! a)"
    by (rule nth_update_pad)
  show ?case
  proof (cases "do_writes f (written out) (cue_writes ?c)")
    case (Pair ok w)
    show ?thesis
    proof (cases ok)
      case False
      with Pair h1 show ?thesis by (simp add: Let_def)
    next
      case True
      let ?out1 = "out\<lparr>blocks := blocks out @ [?c], written := w, heap := ?h1\<rparr>"
      from True Pair have step: "write_loop f m l (r # rs) idx out = write_loop f m l rs (idx + 1) ?out1"
        by (simp add: Let_def)
      from Cons.IH[of "idx + 1" ?out1]
      have "heap (write_loop f m l rs (idx + 1) ?out1) ! a = ?h1 ! a
            \<or> heap (write_loop f m l rs (idx + 1) ?out1) ! a = pad_segment (?h1 ! a)"
        by simp
      with h1 show ?thesis unfolding step by (auto simp: pad_segment_idem)
    qed
  qed
qed

lemma format_subtitles_heap:
  assumes "i < length segs"
  shows "heap (format_subtitles fault segs mcps md ml) ! i = segs ! i
         \<or> heap (format_subtitles fault segs mcps md ml) ! i = pad_segment (segs ! i)"
proof (cases "split_all (mcps * ml) md ml [0..<length segs] [] segs")
  case (Inl e)
  then show ?thesis by (simp add: format_subtitles_def)
next
  case (Inr p)
  obtain fmt h where p: "p = (fmt, h)" by (cases p)
  from split_all_spec[of "mcps * ml" md ml "[0..<length segs]" "[]" segs fmt h] Inr p
  obtain ys where h: "h = segs @ ys" by auto
  with assms have hi: "h ! i = segs ! i" by (simp add: nth_append)
  let ?out = "\<lparr>raised = None, blocks = [], written = [], heap = h\<rparr>"
  from write_loop_heap[of fault mcps ml fmt 1 ?out i] hi
  have "heap (write_loop fault mcps ml fmt 1 ?out) ! i = segs ! i
        \<or> heap (write_loop fault mcps ml fmt 1 ?out) ! i = pad_segment (segs ! i)"
    by simp
  with Inr p hi show ?thesis by (auto simp add: format_subtitles_def Let_def)
qed

lemma format_subtitles_single_Same:
  assumes "split_segment seg (mcps * ml) md ml = Inr Same"
  shows "format_subtitles NoFault [seg] mcps md ml =
           \<lparr>raised = None, blocks = [mk_cue mcps ml 1 seg],
            written = cue_writes (mk_cue mcps ml 1 seg), heap = [pad_segment seg]\<rparr>"
  using assms by (simp add: format_subtitles_def Let_def do_writes_NoFault)

lemma scenario_d_same: "split_segment scenario_d (80 * 2) 7 2 = Inr Same"
  by code_simp

lemma scenario_d_out:
  "format_subtitles NoFault [scenario_d] 80 7 2 =
     \<lparr>raised = None, blocks = [mk_cue 80 2 1 scenario_d],
      written = cue_writes (mk_cue 80 2 1 scenario_d), heap = [pad_segment scenario_d]\<rparr>"
  by (rule format_subtitles_single_Same[OF scenario_d_same])







text \<open>
  C4, as stated, fails: the zero-duration segment of Scenario D is returned unsplit, so
  the list that is written holds the input object itself, and the assignment
  \<open>segment.end_time = segment.start_time + 0.1\<close> changes it.
\<close>

theorem input_segment_mutated:
  "end_time (heap (format_subtitles NoFault [scenario_d] 80 7 2) ! 0) = 51 / 10
   \<and> end_time ([scenario_d] ! 0) = 5"
  unfolding scenario_d_out by (simp add: pad_segment_def scenario_d_def add_tenth_small)

text \<open>
  C4, amended. After a call, every input \<open>Segment\<close> is either unchanged, or it had
  \<open>end_time \<le> start_time\<close> and differs from its old value only in \<open>end_time\<close>, which
  is now the sum \<open>start_time + 0.1\<close> (exactly \<open>start_time + 1 / 10\<close> up to \<open>2 ^ 49\<close>
  seconds, lemma \<open>add_tenth_small\<close>). In particular \<open>start_time\<close> and \<open>text\<close> never
  change, and a segment with \<open>end_time > start_time\<close> is never changed.
\<close>

theorem input_segments_only_padded:
  assumes "i < length segs"
  shows "heap (format_subtitles fault segs mcps md mlpb) ! i = segs ! i
         \<or> (end_time (segs ! i) \<le> start_time (segs ! i)
            \<and> heap (format_subtitles fault segs mcps md mlpb) ! i
                = (segs ! i)\<lparr>end_time := add_tenth (start_time (segs ! i))\<rparr>)"
  using format_subtitles_heap[OF assms, of fault mcps md mlpb]
  by (auto simp: pad_segment_def split: if_splits)

theorem input_segments_only_padded_witness:
  "heap (format_subtitles NoFault [scenario_d] 80 7 2) ! 0 = [scenario_d] ! 0
   \<or> (end_time ([scenario_d] ! 0) \<le> start_time ([scenario_d] ! 0)
      \<and> heap (format_subtitles NoFault [scenario_d] 80 7 2) ! 0
          = ([scenario_d] ! 0)\<lparr>end_time := start_time ([scenario_d] ! 0) + 1 / 10\<rparr>)"
  using input_segments_only_padded[of 0 "[scenario_d]" NoFault 80 7 2]
  by (simp add: scenario_d_def add_tenth_small)

subsection \<open>Words and lines\<close>

lemma split_ws_aux_words:
  assumes "\<forall>c \<in> set cur. \<not> isspace c" and "w \<in> set (split_ws_aux cur s)"
  shows "w \<noteq> [] \<and> (\<forall>c \<in> set w. \<not> isspace c)"
  using assms
proof (induction s arbitrary: cur)
  case Nil
  then show ?case by (auto split: if_splits)
next
  case (Cons a s)
  show ?case
  proof (cases "isspace a")
    case True
    show ?thesis
    proof (cases "cur = []")
      case True
      with \<open>isspace a\<close> Cons.prems(2) have "w \<in> set (split_ws_aux [] s)" by simp
      from Cons.IH[OF _ this] show ?thesis by simp
    next
      case False
      with \<open>isspace a\<close> Cons.prems(2) have "w = cur \<or> w \<in> set (split_ws_aux [] s)" by simp
      then show ?thesis
      proof
        assume "w = cur"
        with False Cons.prems(1) show ?thesis by simp
      next
        assume "w \<in> set (split_ws_aux [] s)"
        from Cons.IH[OF _ this] show ?thesis by simp
      qed
    qed
  next
    case False
    with Cons.prems(2) have w: "w \<in> set (split_ws_aux (cur @ [a]) s)" by simp
    from False Cons.prems(1) have "\<forall>c \<in> set (cur @ [a]). \<not> isspace c" by simp
    from Cons.IH[OF this w] show ?thesis .
  qed
qed

lemma split_ws_words:
  "w \<in> set (split_ws s) \<Longrightarrow> w \<noteq> [] \<and> (\<forall>c \<in> set w. \<not> isspace c)"
  using split_ws_aux_words[of "[]" w s] by (simp add: split_ws_def)





subsection \<open>When the splitting raises\<close>

lemma chars_loop_Inr:
  "max_lines \<noteq> 0 \<Longrightarrow> \<exists>st'. chars_loop seg max_chars max_lines tpc n ws st = Inr st'"
proof (induction ws arbitrary: st)
  case Nil
  then show ?case by simp
next
  case (Cons p ws)
  then show ?case by (cases p) simp
qed

lemma split_segment_by_chars_Inr:
  assumes "max_lines \<noteq> 0" and "max_chars \<noteq> 0"
  shows "\<exists>r. split_segment_by_chars seg max_chars max_lines = Inr r"
proof -
  let ?tpc = "if 0 < length (seg_text seg)
              then (end_time seg - start_time seg) / real (length (seg_text seg)) else 0"
  let ?st0 = "\<lparr>split_segments = [], current_line = [], current_start_time = start_time seg,
               processed_chars = 0, lines_in_block = []\<rparr>"
  let ?ws = "split_ws (seg_text seg)"
  from chars_loop_Inr[OF assms(1), of seg max_chars ?tpc "length ?ws" "enumerate 0 ?ws" ?st0]
  obtain st' where "chars_loop seg max_chars max_lines ?tpc (length ?ws) (enumerate 0 ?ws) ?st0 = Inr st'"
    by blast
  with assms(2) show ?thesis by (simp add: split_segment_by_chars_def Let_def)
qed

lemma extend_by_chars_Inr:
  assumes "max_lines \<noteq> 0" and "max_chars \<noteq> 0"
  shows "\<exists>xs. extend_by_chars ss max_chars max_lines = Inr xs"
proof (induction ss)
  case Nil
  then show ?case by simp
next
  case (Cons s ss)
  from split_segment_by_chars_Inr[OF assms, of s] obtain r
    where "split_segment_by_chars s max_chars max_lines = Inr r" by blast
  with Cons show ?case by auto
qed

lemma num_splits_ge_2:
  assumes "0 < md" and "md * (3 / 2) < (d::real)"
  shows "2 \<le> \<lfloor>d / md\<rfloor> + 1"
proof -
  from assms have "md \<le> d" by simp
  with assms(1) have "1 \<le> d / md" by (simp add: le_divide_eq_1_pos)
  then have "1 \<le> \<lfloor>d / md\<rfloor>" by (simp only: one_le_floor)
  then show ?thesis by simp
qed

lemma duration_split_Inr:
  assumes "0 < md" and "md * (3 / 2) < end_time seg - start_time seg" and "max_lines \<noteq> 0"
    and "max_chars \<noteq> 0"
  shows "\<exists>r. duration_split seg max_chars md max_lines = Inr r"
proof -
  let ?n = "\<lfloor>(end_time seg - start_time seg) / md\<rfloor> + 1"
  from num_splits_ge_2[OF assms(1,2)] have n: "?n \<noteq> 0" by linarith
  let ?chunks = "duration_loop seg ((end_time seg - start_time seg) / of_int ?n)
                   (split_ws (seg_text seg))
                   (nat (if 0 < ?n then int (length (split_ws (seg_text seg))) div ?n
                         else int (length (split_ws (seg_text seg)))))
                   ?n [0..<nat ?n] (start_time seg) 0"
  from extend_by_chars_Inr[OF assms(3,4), of ?chunks] obtain xs
    where "extend_by_chars ?chunks max_chars max_lines = Inr xs" by blast
  with n assms(1) show ?thesis
    by (simp add: duration_split_def Let_def)
qed

lemma split_segment_Inr:
  assumes "0 < md" and "max_lines \<noteq> 0" and "max_chars \<noteq> 0"
  shows "\<exists>r. split_segment seg max_chars md max_lines = Inr r"
proof (cases "md * (3 / 2) < end_time seg - start_time seg")
  case True
  from duration_split_Inr[OF assms(1) True assms(2,3)] obtain r
    where r: "duration_split seg max_chars md max_lines = Inr r" by blast
  from split_segment_by_chars_Inr[OF assms(2,3), of seg] obtain r'
    where "split_segment_by_chars seg max_chars max_lines = Inr r'" by blast
  with r True show ?thesis
    by (cases r) (simp_all add: split_segment_def Let_def)
next
  case False
  from split_segment_by_chars_Inr[OF assms(2,3), of seg] obtain r'
    where "split_segment_by_chars seg max_chars max_lines = Inr r'" by blast
  with False show ?thesis by (simp add: split_segment_def Let_def)
qed

lemma split_all_never_raises:
  assumes "0 < md" and "max_lines \<noteq> 0" and "max_chars \<noteq> 0"
  shows "\<exists>p. split_all max_chars md max_lines [0..<length segs] [] segs = Inr p"
  by (rule split_all_Inr) (simp add: split_segment_Inr[OF assms])

subsection \<open>Segments without words\<close>



subsection \<open>Stream failures\<close>








text \<open>
  The character limit is not validated either. With \<open>max_chars_per_segment = 0\<close>, or
  with \<open>max_lines_per_block = 0\<close>, the combined limit \<open>max_chars\<close> is 0, and a text with a
  word reaches line 132, where \<open>len(text) // max_chars\<close> raises \<open>ZeroDivisionError\<close>.
\<close>

lemma zero_max_chars_raises:
  "raised (format_subtitles NoFault [scenario_a] 0 7 2) = Some ZeroDivisionError"
proof -
  have "split_all (0 * 2) 7 2 [0..<length [scenario_a]] [] [scenario_a] = Inl ZeroDivisionError"
    by code_simp
  from format_subtitles_split_error[OF this] show ?thesis by simp
qed

lemma zero_max_lines_raises:
  "raised (format_subtitles NoFault [scenario_a] 5 7 0) = Some ZeroDivisionError"
proof -
  have "split_all (5 * 0) 7 0 [0..<length [scenario_a]] [] [scenario_a] = Inl ZeroDivisionError"
    by code_simp
  from format_subtitles_split_error[OF this] show ?thesis by simp
qed






subsection \<open>The final wrap\<close>

lemma isspace_newline: "isspace (CHR 0x0A)"
  by (simp add: isspace_def)

lemma split_nl_no_newline: "CHR 0x0A \<notin> set s \<Longrightarrow> split_nl s = [s]"
  by (induction s) auto

lemma split_nl_lines: "l \<in> set (split_nl s) \<Longrightarrow> CHR 0x0A \<notin> set l"
  by (induction s arbitrary: l) (auto split: if_splits list.splits)

lemma split_nl_first: "CHR 0x0A \<notin> set a \<Longrightarrow> split_nl (a @ CHR 0x0A # b) = a # split_nl b"
  by (induction a) auto

lemma split_ws_aux_space:
  "isspace c \<Longrightarrow> split_ws_aux cur (a @ c # b) = split_ws_aux cur a @ split_ws b"
  by (induction a arbitrary: cur) (auto simp: split_ws_def)

text \<open>The words of a line of the text are words of the text.\<close>

lemma split_nl_words:
  "l \<in> set (split_nl s) \<Longrightarrow> set (split_ws l) \<subseteq> set (split_ws s)"
proof (induction s arbitrary: l rule: length_induct)
  case (1 s)
  show ?case
  proof (cases "CHR 0x0A \<in> set s")
    case False
    with 1(2) show ?thesis by (simp add: split_nl_no_newline)
  next
    case True
    then obtain a b where s: "s = a @ CHR 0x0A # b" and a: "CHR 0x0A \<notin> set a"
      by (auto dest: split_list_first)
    have ws: "split_ws s = split_ws a @ split_ws b"
      using split_ws_aux_space[OF isspace_newline, of "[]" a b] by (simp add: s split_ws_def)
    from 1(2) have "l = a \<or> l \<in> set (split_nl b)" by (simp add: s split_nl_first[OF a])
    then show ?thesis
    proof
      assume "l = a"
      then show ?thesis by (simp add: ws)
    next
      assume l: "l \<in> set (split_nl b)"
      have "length b < length s" by (simp add: s)
      with 1(1) l have "set (split_ws l) \<subseteq> set (split_ws b)" by blast
      then show ?thesis by (auto simp: ws)
    qed
  qed
qed

lemma wrap_loop_lines:
  assumes "set ws \<subseteq> W"
      and "ll = int (length wl)"
      and "int (length wl) \<le> m \<or> wl \<in> W"
      and "l \<in> set (wrap_loop m ws wl ll)"
  shows "int (length l) \<le> m \<or> l \<in> W"
  using assms
proof (induction ws arbitrary: wl ll)
  case Nil
  then show ?case by auto
next
  case (Cons w ws)
  from Cons.prems(1) have w: "w \<in> W" and ws: "set ws \<subseteq> W" by simp_all
  show ?case
  proof (cases "ll = 0")
    case True
    with Cons.prems(2) have wl: "wl = []" by simp
    from True wl Cons.prems(4) have "l \<in> set (wrap_loop m ws w (int (length w)))" by simp
    from Cons.IH[OF ws _ _ this] w show ?thesis by simp
  next
    case False
    show ?thesis
    proof (cases "ll + int (length w) + 1 \<le> m")
      case True
      with False Cons.prems(4)
      have l: "l \<in> set (wrap_loop m ws (wl @ '' '' @ w) (ll + int (length w) + 1))" by simp
      have "ll + int (length w) + 1 = int (length (wl @ '' '' @ w))"
        using Cons.prems(2) by simp
      moreover from this True have "int (length (wl @ '' '' @ w)) \<le> m" by simp
      ultimately show ?thesis using Cons.IH[OF ws _ _ l] by blast
    next
      case nofit: False
      with False Cons.prems(4)
      have "l = wl \<or> l \<in> set (wrap_loop m ws w (int (length w)))" by simp
      then show ?thesis
      proof
        assume "l = wl"
        with Cons.prems(3) show ?thesis by simp
      next
        assume "l \<in> set (wrap_loop m ws w (int (length w)))"
        from Cons.IH[OF ws _ _ this] w show ?thesis by simp
      qed
    qed
  qed
qed

lemma wrap_loop_no_newline:
  assumes "\<forall>w \<in> set ws. CHR 0x0A \<notin> set w" and "CHR 0x0A \<notin> set wl"
      and "l \<in> set (wrap_loop m ws wl ll)"
  shows "CHR 0x0A \<notin> set l"
  using assms
proof (induction ws arbitrary: wl ll)
  case Nil
  then show ?case by simp
next
  case (Cons w ws)
  from Cons.prems(1) have w: "CHR 0x0A \<notin> set w" and ws: "\<forall>w \<in> set ws. CHR 0x0A \<notin> set w"
    by simp_all
  from w Cons.prems(2) have a: "CHR 0x0A \<notin> set (wl @ w)" "CHR 0x0A \<notin> set (wl @ '' '' @ w)"
    by simp_all
  from Cons.prems(3) consider
      "l \<in> set (wrap_loop m ws (wl @ w) (ll + int (length w)))"
    | "l \<in> set (wrap_loop m ws (wl @ '' '' @ w) (ll + int (length w) + 1))"
    | "l = wl" | "l \<in> set (wrap_loop m ws w (int (length w)))"
    by (auto split: if_splits)
  then show ?case
  proof cases
    case 1
    from Cons.IH[OF ws a(1) this] show ?thesis .
  next
    case 2
    from Cons.IH[OF ws a(2) this] show ?thesis .
  next
    case 3
    with Cons.prems(2) show ?thesis by simp
  next
    case 4
    from Cons.IH[OF ws w this] show ?thesis .
  qed
qed

lemma wrap_line_lines:
  assumes "0 \<le> m" and "l \<in> set (wrap_line m line)"
  shows "int (length l) \<le> m \<or> l \<in> set (split_ws line)"
proof (cases "m < int (length line)")
  case True
  with assms(2) have l: "l \<in> set (wrap_loop m (split_ws line) [] 0)" by (simp add: wrap_line_def)
  from wrap_loop_lines[OF _ _ _ l, of "set (split_ws line)"] assms(1) show ?thesis by simp
next
  case False
  with assms(2) show ?thesis by (simp add: wrap_line_def)
qed

lemma wrap_line_no_newline:
  assumes "CHR 0x0A \<notin> set line" and "l \<in> set (wrap_line m line)"
  shows "CHR 0x0A \<notin> set l"
proof (cases "m < int (length line)")
  case True
  with assms(2) have l: "l \<in> set (wrap_loop m (split_ws line) [] 0)" by (simp add: wrap_line_def)
  have "\<forall>w \<in> set (split_ws line). CHR 0x0A \<notin> set w"
    using split_ws_words isspace_newline by blast
  from wrap_loop_no_newline[OF this _ l] show ?thesis by simp
next
  case False
  with assms show ?thesis by (simp add: wrap_line_def)
qed

lemma final_lines_lines:
  assumes "l \<in> set (final_lines m txt)"
  shows "CHR 0x0A \<notin> set l"
    and "0 \<le> m \<Longrightarrow> int (length l) \<le> m \<or> l \<in> set (split_ws txt)"
proof -
  from assms obtain line where line: "line \<in> set (split_nl txt)" and l: "l \<in> set (wrap_line m line)"
    by (auto simp: final_lines_def)
  from wrap_line_no_newline[OF split_nl_lines[OF line] l] show "CHR 0x0A \<notin> set l" .
  show "int (length l) \<le> m \<or> l \<in> set (split_ws txt)" if "0 \<le> m"
    using wrap_line_lines[OF that l] split_nl_words[OF line] by blast
qed

lemma py_take_subset: "set (py_take n xs) \<subseteq> set xs"
  by (auto simp: py_take_def dest: in_set_takeD)

lemma py_take_length: "0 \<le> n \<Longrightarrow> int (length (py_take n xs)) \<le> n"
  by (simp add: py_take_def)

lemma mk_cue_lines:
  assumes "0 \<le> mcps" and "0 \<le> ml"
  shows "int (length (cue_lines (mk_cue mcps ml i s))) \<le> ml
         \<and> (\<forall>l \<in> set (cue_lines (mk_cue mcps ml i s)).
               CHR 0x0A \<notin> set l
               \<and> (int (length l) \<le> mcps \<or> l \<in> set (split_ws (seg_text s))))"
  using py_take_length[OF assms(2)] py_take_subset[of ml "final_lines mcps (seg_text s)"]
    final_lines_lines[of _ mcps "seg_text s"] assms(1)
  by (auto simp: mk_cue_def)

subsection \<open>The blocks written are made from the derived segments, in order\<close>

lemma write_loop_blocks_prefix:
  "distinct rs \<Longrightarrow>
   \<exists>n \<le> length rs. blocks (write_loop fault m l rs idx out) =
     blocks out @ map (\<lambda>(i, r). mk_cue m l i (heap out ! r)) (zip [idx..<idx + n] (take n rs))"
proof (induction rs arbitrary: idx out)
  case Nil
  then show ?case by simp
next
  case (Cons r rs)
  define c where "c = mk_cue m l idx (heap out ! r)"
  show ?case
  proof (cases "do_writes fault (written out) (cue_writes c)")
    case (Pair ok w)
    show ?thesis
    proof (cases ok)
      case False
      with Pair have "blocks (write_loop fault m l (r # rs) idx out) = blocks out"
        by (simp add: Let_def c_def)
      then have "0 \<le> length (r # rs) \<and> blocks (write_loop fault m l (r # rs) idx out) =
          blocks out @ map (\<lambda>(i, r). mk_cue m l i (heap out ! r)) (zip [idx..<idx + 0] (take 0 (r # rs)))"
        by simp
      then show ?thesis by (rule exI)
    next
      case True
      define out1 where "out1 = out\<lparr>blocks := blocks out @ [c], written := w,
                              heap := (heap out)[r := pad_segment (heap out ! r)]\<rparr>"
      have step: "write_loop fault m l (r # rs) idx out = write_loop fault m l rs (Suc idx) out1"
        using Pair True by (simp add: Let_def out1_def c_def)
      from Cons.prems have d: "distinct rs" by simp
      from Cons.IH[OF d, of "Suc idx" out1] obtain n where n: "n \<le> length rs" and
        b: "blocks (write_loop fault m l rs (Suc idx) out1) =
              blocks out1 @ map (\<lambda>(i, r'). mk_cue m l i (heap out1 ! r'))
                              (zip [Suc idx..<Suc idx + n] (take n rs))"
        by blast
      have same: "heap out1 ! r' = heap out ! r'" if "r' \<in> set (take n rs)" for r'
      proof -
        from that have "r' \<in> set rs" by (rule in_set_takeD)
        with Cons.prems have "r \<noteq> r'" by auto
        then show ?thesis by (simp add: out1_def)
      qed
      have eq: "map (\<lambda>(i, r'). mk_cue m l i (heap out1 ! r')) (zip [Suc idx..<Suc idx + n] (take n rs))
              = map (\<lambda>(i, r'). mk_cue m l i (heap out ! r')) (zip [Suc idx..<Suc idx + n] (take n rs))"
        by (rule map_cong) (auto dest: set_zip_rightD simp: same)
      have upt: "[idx..<idx + Suc n] = idx # [Suc idx..<Suc idx + n]"
        by (simp add: upt_conv_Cons del: upt_Suc)
      have "Suc n \<le> length (r # rs) \<and> blocks (write_loop fault m l (r # rs) idx out) =
          blocks out @ map (\<lambda>(i, r). mk_cue m l i (heap out ! r))
                         (zip [idx..<idx + Suc n] (take (Suc n) (r # rs)))"
        unfolding step b eq upt using n by (simp add: out1_def c_def)
      then show ?thesis by (rule exI)
    qed
  qed
qed

lemma format_subtitles_blocks_prefix:
  "\<exists>n \<le> length (concat (map (\<lambda>s. derived s (mcps * ml) md ml) segs)).
     blocks (format_subtitles fault segs mcps md ml) =
       map (\<lambda>(i, s). mk_cue mcps ml i s)
         (zip [1..<1 + n] (take n (concat (map (\<lambda>s. derived s (mcps * ml) md ml) segs))))"
proof -
  let ?D = "concat (map (\<lambda>s. derived s (mcps * ml) md ml) segs)"
  have none: ?thesis if "blocks (format_subtitles fault segs mcps md ml) = []"
  proof -
    from that have "0 \<le> length ?D \<and> blocks (format_subtitles fault segs mcps md ml) =
        map (\<lambda>(i, s). mk_cue mcps ml i s) (zip [1..<1 + 0] (take 0 ?D))" by simp
    then show ?thesis by (rule exI)
  qed
  show ?thesis
  proof (cases "split_all (mcps * ml) md ml [0..<length segs] [] segs")
    case (Inl e)
    then show ?thesis by (intro none) (simp add: format_subtitles_def)
  next
    case (Inr p)
    obtain fmt h where p: "p = (fmt, h)" by (cases p)
    from split_all_spec[OF Inr[unfolded p]] obtain ys where
      h: "h = segs @ ys" and
      vs: "map ((!) h) fmt = concat (map (\<lambda>r. derived (segs ! r) (mcps * ml) md ml) [0..<length segs])"
      and d: "distinct fmt"
      by auto
    have "map (\<lambda>r. derived (segs ! r) (mcps * ml) md ml) [0..<length segs]
          = map (\<lambda>s. derived s (mcps * ml) md ml) (map ((!) segs) [0..<length segs])"
      by simp
    also have "\<dots> = map (\<lambda>s. derived s (mcps * ml) md ml) segs"
      by (simp only: map_nth)
    finally have vs': "map ((!) h) fmt = ?D" using vs by simp
    then have len: "length ?D = length fmt" by (metis length_map)
    show ?thesis
    proof (cases "fault = OpenFails")
      case True
      with Inr p show ?thesis by (intro none) (simp add: format_subtitles_def)
    next
      case False
      let ?out = "\<lparr>raised = None, blocks = [], written = [], heap = h\<rparr>"
      from write_loop_blocks_prefix[OF d, of fault mcps ml 1 ?out] obtain n where
        n: "n \<le> length fmt" and
        b: "blocks (write_loop fault mcps ml fmt 1 ?out) =
              map (\<lambda>(i, r). mk_cue mcps ml i (h ! r)) (zip [1..<1 + n] (take n fmt))"
        by auto
      have "blocks (format_subtitles fault segs mcps md ml) = blocks (write_loop fault mcps ml fmt 1 ?out)"
        using Inr p False by (simp add: format_subtitles_def Let_def)
      also have "\<dots> = map (\<lambda>(i, s). mk_cue mcps ml i s)
                          (zip [1..<1 + n] (map ((!) h) (take n fmt)))"
        unfolding b by (simp add: zip_map2 case_prod_unfold)
      also have "map ((!) h) (take n fmt) = take n ?D"
        by (simp add: vs'[symmetric] take_map)
      finally have "n \<le> length ?D \<and> blocks (format_subtitles fault segs mcps md ml) =
          map (\<lambda>(i, s). mk_cue mcps ml i s) (zip [1..<1 + n] (take n ?D))"
        using n len by simp
      then show ?thesis by (rule exI)
    qed
  qed
qed

lemma mk_cue_zip_rel:
  assumes "length is = length xs" and "\<And>i s. R (mk_cue m l i s) s"
  shows "list_all2 R (map (\<lambda>(i, s). mk_cue m l i s) (zip is xs)) xs"
  using assms(1) by (induction "is" xs rule: list_induct2) (simp_all add: assms(2))

lemma format_subtitles_blocks_rel:
  assumes "\<And>i s. R (mk_cue mcps ml i s) s"
  shows "list_all2 R (blocks (format_subtitles fault segs mcps md ml))
           (take (length (blocks (format_subtitles fault segs mcps md ml)))
              (concat (map (\<lambda>s. derived s (mcps * ml) md ml) segs)))"
proof -
  let ?D = "concat (map (\<lambda>s. derived s (mcps * ml) md ml) segs)"
  from format_subtitles_blocks_prefix[of mcps ml md segs fault] obtain n where
    n: "n \<le> length ?D" and
    b: "blocks (format_subtitles fault segs mcps md ml) =
          map (\<lambda>(i, s). mk_cue mcps ml i s) (zip [1..<1 + n] (take n ?D))"
    by blast
  from n have len: "length [1..<1 + n] = length (take n ?D)" by (simp del: upt_Suc)
  then have "length (blocks (format_subtitles fault segs mcps md ml)) = n"
    unfolding b using n by (simp del: upt_Suc)
  then show ?thesis
    unfolding b using mk_cue_zip_rel[OF len, of R mcps ml] assms by (simp del: upt_Suc)
qed

lemma format_subtitles_single:
  assumes "split_segment seg (mcps * ml) md ml = Inr r"
  shows "blocks (format_subtitles NoFault [seg] mcps md ml) =
           map (\<lambda>(i, s). mk_cue mcps ml i s)
             (zip [1..<1 + length (segments_of seg r)] (segments_of seg r))"
proof -
  have d: "derived seg (mcps * ml) md ml = segments_of seg r"
    using assms by (simp add: derived_def)
  obtain p where "split_all (mcps * ml) md ml [0..<length [seg]] [] [seg] = Inr p"
    using split_all_Inr[of "[0..<length [seg]]" "[seg]" "mcps * ml" md ml "[]"] assms by auto
  then obtain fmt h where "split_all (mcps * ml) md ml [0..<length [seg]] [] [seg] = Inr (fmt, h)"
    by (cases p) auto
  from format_subtitles_NoFault_blocks[OF this] d show ?thesis by simp
qed

lemma long_word_example_split:
  "split_segment long_word_example (10 * 2) 7 2 =
     Inr (Fresh [\<lparr>start_time = 0, end_time = 1 / 10, seg_text = ''a great''\<rparr>,
                 \<lparr>start_time = 1 / 10, end_time = 1 / 5,
                   seg_text = ''internationalization'' @ newline @ ''internationalization''\<rparr>,
                 \<lparr>start_time = 1 / 5, end_time = 4, seg_text = ''effort'' @ newline @ ''here''\<rparr>])"
  by code_simp

text \<open>
  C8, as stated, fails: the limits are not validated, and with a negative
  \<open>max_lines_per_block\<close> the slice \<open>final_lines[:max_lines_per_block]\<close> drops lines from
  the end instead of keeping at most that many. With \<open>max_lines_per_block = -1\<close> the
  block written for Scenario A has the one line \<open>Hello\<close>, more than \<open>-1\<close> lines.
\<close>

theorem negative_max_lines_exceeded:
  "map cue_lines (blocks (format_subtitles NoFault [scenario_a] 80 7 (- 1))) = [[''Hello'']]
   \<and> \<not> int (length [''Hello'']) \<le> - 1"
proof -
  define s0 where "s0 = \<lparr>start_time = 0, end_time = 5, seg_text = ''Hello'' @ newline @ ''world''\<rparr>"
  have s: "split_segment scenario_a (80 * (- 1)) 7 (- 1) = Inr (Fresh [s0])"
    unfolding s0_def by code_simp
  have bs: "blocks (format_subtitles NoFault [scenario_a] 80 7 (- 1)) = [mk_cue 80 (- 1) 1 s0]"
    unfolding format_subtitles_single[OF s] by (simp add: upt_conv_Cons)
  have "cue_lines (mk_cue 80 (- 1) 1 s0) = [''Hello'']"
    unfolding s0_def by code_simp
  then show ?thesis unfolding bs by simp
qed

text \<open>
  C8, amended. With \<open>max_chars_per_segment \<ge> 0\<close> and \<open>max_lines_per_block \<ge> 0\<close>, the
  blocks written are made, in order, from the segments that the splitting derived, and
  for every block and the segment it was made from: the block has at most
  \<open>max_lines_per_block\<close> lines; none of its lines contains a newline (so the text
  written has exactly that many lines); and each line either has at most
  \<open>max_chars_per_segment\<close> characters or is, as a whole, one of the words of the
  segment's text (a maximal run of non-whitespace characters, not broken). This holds
  for every input, every \<open>max_duration_seconds\<close> and every behaviour of the stream.
\<close>

theorem cue_lines_within_limits:
  assumes "0 \<le> mcps" and "0 \<le> ml"
  shows "list_all2
           (\<lambda>c s. int (length (cue_lines c)) \<le> ml
                  \<and> (\<forall>l \<in> set (cue_lines c).
                        CHR 0x0A \<notin> set l
                        \<and> (int (length l) \<le> mcps \<or> l \<in> set (split_ws (seg_text s)))))
           (blocks (format_subtitles fault segs mcps md ml))
           (take (length (blocks (format_subtitles fault segs mcps md ml)))
              (concat (map (\<lambda>s. derived s (mcps * ml) md ml) segs)))"
  by (rule format_subtitles_blocks_rel) (rule mk_cue_lines[OF assms])

theorem cue_lines_within_limits_witness:
  "(0::int) \<le> 10 \<and> (0::int) \<le> 2
   \<and> length (blocks (format_subtitles NoFault [long_word_example] 10 7 2)) = 3
   \<and> cue_lines (blocks (format_subtitles NoFault [long_word_example] 10 7 2) ! 1)
        = [''internationalization'', ''internationalization'']
   \<and> int (length (cue_lines (blocks (format_subtitles NoFault [long_word_example] 10 7 2) ! 1))) \<le> 2
   \<and> \<not> int (length ''internationalization'') \<le> 10
   \<and> ''internationalization''
        \<in> set (split_ws (seg_text (derived long_word_example (10 * 2) 7 2 ! 1)))"
proof -
  let ?bs = "blocks (format_subtitles NoFault [long_word_example] 10 7 2)"
  define s0 where "s0 = \<lparr>start_time = 0, end_time = 1 / 10, seg_text = ''a great''\<rparr>"
  define s1 where "s1 = \<lparr>start_time = 1 / 10, end_time = 1 / 5,
                seg_text = ''internationalization'' @ newline @ ''internationalization''\<rparr>"
  define s2 where "s2 = \<lparr>start_time = 1 / 5, end_time = 4,
                seg_text = ''effort'' @ newline @ ''here''\<rparr>"
  have s: "split_segment long_word_example (10 * 2) 7 2 = Inr (Fresh [s0, s1, s2])"
    unfolding s0_def s1_def s2_def by (rule long_word_example_split)
  then have d: "derived long_word_example (10 * 2) 7 2 = [s0, s1, s2]"
    by (simp add: derived_def)
  have bs: "?bs = [mk_cue 10 2 1 s0, mk_cue 10 2 2 s1, mk_cue 10 2 3 s2]"
    unfolding format_subtitles_single[OF s] by (simp add: upt_conv_Cons eval_nat_numeral)
  have b1: "cue_lines (mk_cue 10 2 2 s1) = [''internationalization'', ''internationalization'']"
    unfolding s1_def by code_simp
  have a: "(0::int) \<le> 10" "(0::int) \<le> 2" by simp_all
  from d have d20: "derived long_word_example 20 7 2 = [s0, s1, s2]" by simp
  from cue_lines_within_limits[OF a, of NoFault "[long_word_example]" 7, unfolded bs]
  have "list_all2
           (\<lambda>c s. int (length (cue_lines c)) \<le> 2
                  \<and> (\<forall>l \<in> set (cue_lines c).
                        CHR 0x0A \<notin> set l
                        \<and> (int (length l) \<le> 10 \<or> l \<in> set (split_ws (seg_text s)))))
           [mk_cue 10 2 1 s0, mk_cue 10 2 2 s1, mk_cue 10 2 3 s2] [s0, s1, s2]"
    by (simp add: d20)
  then have "int (length (cue_lines (mk_cue 10 2 2 s1))) \<le> 2
             \<and> (\<forall>l \<in> set (cue_lines (mk_cue 10 2 2 s1)).
                   int (length l) \<le> 10 \<or> l \<in> set (split_ws (seg_text s1)))"
    by simp
  then have "''internationalization'' \<in> set (split_ws (seg_text s1))"
    unfolding b1 by simp
  then show ?thesis unfolding bs d by (simp add: b1)
qed

subsection \<open>One input segment\<close>






text \<open>
  C7 fails on the code. Scenario B: the segment from 0 to 20 seconds with 100 times
  \<open>word\<close>, under \<open>max_duration_seconds = 7\<close> and the defaults 80 and 2, is split by
  \<open>_split_segment\<close> into exactly three segments of 20/3 seconds holding 33, 33 and 34
  words, and three blocks with these times are written. But the character splitter
  closes a line only once it is longer than \<open>max_chars // max_lines\<close> (line 197), so the
  first line of each derived text has 17 words and 84 characters; the final pass
  re-wraps it into a line of 16 words and a line of 1 word, and the truncation to two
  lines (line 284) cuts the rest off. Each block written holds 17 words.
\<close>

theorem scenario_b_words_cut:
  "map (\<lambda>s. (start_time s, end_time s, length (split_ws (seg_text s))))
       (derived scenario_b (80 * 2) 7 2)
     = [(0, 20 / 3, 33), (20 / 3, 40 / 3, 33), (40 / 3, 20, 34)]
   \<and> map (\<lambda>c. (index c, cue_start c, cue_end c))
        (blocks (format_subtitles NoFault [scenario_b] 80 7 2))
     = [(1, 0, 20 / 3), (2, 20 / 3, 40 / 3), (3, 40 / 3, 20)]
   \<and> map (map (length \<circ> split_ws) \<circ> cue_lines)
        (blocks (format_subtitles NoFault [scenario_b] 80 7 2))
     = [[16, 1], [16, 1], [16, 1]]"
proof -
  define l17 where "l17 = join '' '' (replicate 17 ''word'')"
  define l16 where "l16 = join '' '' (replicate 16 ''word'')"
  define s0 where "s0 = \<lparr>start_time = 0, end_time = 20 / 3, seg_text = l17 @ newline @ l16\<rparr>"
  define s1 where "s1 = \<lparr>start_time = 20 / 3, end_time = 40 / 3, seg_text = l17 @ newline @ l16\<rparr>"
  define s2 where "s2 = \<lparr>start_time = 40 / 3, end_time = 20, seg_text = l17 @ newline @ l17\<rparr>"
  have s: "split_segment scenario_b (80 * 2) 7 2 = Inr (Fresh [s0, s1, s2])"
    unfolding s0_def s1_def s2_def l17_def l16_def by code_simp
  then have d: "derived scenario_b (80 * 2) 7 2 = [s0, s1, s2]" by (simp add: derived_def)
  have n: "length (split_ws (l17 @ newline @ l16)) = 33" "length (split_ws (l17 @ newline @ l17)) = 34"
    unfolding l17_def l16_def by code_simp+
  have w: "map (\<lambda>s. (start_time s, end_time s, length (split_ws (seg_text s)))) [s0, s1, s2]
             = [(0, 20 / 3, 33), (20 / 3, 40 / 3, 33), (40 / 3, 20, 34)]"
    by (simp add: s0_def s1_def s2_def n)
  have bs: "blocks (format_subtitles NoFault [scenario_b] 80 7 2)
              = [mk_cue 80 2 1 s0, mk_cue 80 2 2 s1, mk_cue 80 2 3 s2]"
    unfolding format_subtitles_single[OF s] by (simp add: upt_conv_Cons eval_nat_numeral)
  have t: "map (\<lambda>c. (index c, cue_start c, cue_end c))
             [mk_cue 80 2 1 s0, mk_cue 80 2 2 s1, mk_cue 80 2 3 s2]
           = [(1, 0, 20 / 3), (2, 20 / 3, 40 / 3), (3, 40 / 3, 20)]"
    by (simp add: mk_cue_def pad_segment_def s0_def s1_def s2_def)
  have c: "map (length \<circ> split_ws) (py_take 2 (final_lines 80 (l17 @ newline @ l16))) = [16, 1]"
    "map (length \<circ> split_ws) (py_take 2 (final_lines 80 (l17 @ newline @ l17))) = [16, 1]"
    unfolding l17_def l16_def by code_simp+
  have l: "map (map (length \<circ> split_ws) \<circ> cue_lines)
             [mk_cue 80 2 1 s0, mk_cue 80 2 2 s1, mk_cue 80 2 3 s2]
           = [[16, 1], [16, 1], [16, 1]]"
    by (simp add: mk_cue_def s0_def s1_def s2_def c)
  show ?thesis unfolding d bs by (intro conjI w t l)
qed

text \<open>
  C2 fails on the code. When a block is closed and the word that starts the next one
  is longer than a line, the word is put into the new block's line list but the line
  buffer is not reset (lines 169-172, the case \<open>else: line added, continue to next word\<close>),
  so the word is flushed a second time. Here the derived texts read
  \<open>a great\<close>, \<open>internationalization / internationalization\<close>, \<open>effort / here\<close>.
\<close>

theorem long_word_duplicated:
  "map seg_text (derived long_word_example (10 * 2) 7 2)
     = [''a great'',
        ''internationalization'' @ newline @ ''internationalization'',
        ''effort'' @ newline @ ''here'']
   \<and> join '' '' (concat (map (split_ws \<circ> seg_text) (derived long_word_example (10 * 2) 7 2)))
       = ''a great internationalization internationalization effort here''
   \<and> join '' '' (split_ws (seg_text long_word_example))
       = ''a great internationalization effort here''"
  by code_simp

subsection \<open>The invariant of the word loop\<close>













subsection \<open>What the character splitter returns\<close>


subsection \<open>The duration split\<close>




subsection \<open>Times of the blocks written for the derived segments\<close>








subsection \<open>Order of emission\<close>

lemma format_subtitles_times:
  assumes "0 < md" and "mcps \<noteq> 0" and "ml \<noteq> 0"
  shows "map (\<lambda>c. (cue_start c, cue_end c)) (blocks (format_subtitles NoFault segs mcps md ml))
         = concat (map (\<lambda>s. map (\<lambda>x. (start_time x, end_time (pad_segment x)))
                                 (derived s (mcps * ml) md ml)) segs)"
proof -
  from assms(2,3) have "mcps * ml \<noteq> 0" by simp
  from split_all_never_raises[OF assms(1,3) this, of segs] obtain fmt h
    where "split_all (mcps * ml) md ml [0..<length segs] [] segs = Inr (fmt, h)" by auto
  note b = format_subtitles_NoFault_blocks[OF this]
  let ?xs = "concat (map (\<lambda>s. derived s (mcps * ml) md ml) segs)"
  have len: "length [1..<1 + length ?xs] = length ?xs" by (simp del: upt_Suc)
  have "map (\<lambda>c. (cue_start c, cue_end c)) (map (\<lambda>(i, s). mk_cue mcps ml i s) (zip [1..<1 + length ?xs] ?xs))
        = map (\<lambda>x. (start_time x, end_time (pad_segment x))) (map snd (zip [1..<1 + length ?xs] ?xs))"
    by (simp add: mk_cue_def case_prod_unfold comp_def)
  also have "\<dots> = map (\<lambda>x. (start_time x, end_time (pad_segment x))) ?xs"
    using len by simp
  also have "\<dots> = concat (map (\<lambda>s. map (\<lambda>x. (start_time x, end_time (pad_segment x)))
                                 (derived s (mcps * ml) md ml)) segs)"
    by (simp add: map_concat comp_def)
  finally show ?thesis unfolding b .
qed

text \<open>
  C9 fails on the code. The two input segments are in temporal order (the first ends
  where the second starts, at 0.05 seconds), but the cues written start at 0, 0.1 and
  0.05. When the character splitter closes a block at lines 148-164 it computes
  \<open>block_chars\<close> (line 151) but never adds it to \<open>processed_chars\<close>, as the sibling
  branch does at lines 174-175; so the first block's proportional end is its own
  start, the window is taken for empty and padded to 0.1 seconds, beyond the end of
  the segment, and the next block starts there.
\<close>

theorem starts_not_monotone:
  "start_time tiny_long_segment < start_time next_segment
   \<and> end_time tiny_long_segment \<le> start_time next_segment
   \<and> map (\<lambda>c. (cue_start c, cue_end c))
        (blocks (format_subtitles NoFault [tiny_long_segment, next_segment] 5 7 1))
       = [(0, 1 / 10), (1 / 10, 1 / 5), (1 / 20, 1)]
   \<and> \<not> sorted [0, 1 / 10, 1 / 20 :: real]"
proof -
  have a: "(0::real) < 7" "(5::int) \<noteq> 0" "(1::int) \<noteq> 0" by simp_all
  have d1: "map (\<lambda>x. (start_time x, end_time (pad_segment x))) (derived tiny_long_segment (5 * 1) 7 1)
              = [(0, 1 / 10), (1 / 10, 1 / 5)]" by code_simp
  have d2: "map (\<lambda>x. (start_time x, end_time (pad_segment x))) (derived next_segment (5 * 1) 7 1)
              = [(1 / 20, 1)]" by code_simp
  from format_subtitles_times[OF a, of "[tiny_long_segment, next_segment]"] d1 d2
  have s: "map (\<lambda>c. (cue_start c, cue_end c))
        (blocks (format_subtitles NoFault [tiny_long_segment, next_segment] 5 7 1))
       = [(0, 1 / 10), (1 / 10, 1 / 5), (1 / 20, 1)]" by simp
  have t: "start_time tiny_long_segment < start_time next_segment"
    "end_time tiny_long_segment \<le> start_time next_segment"
    by (simp_all add: tiny_long_segment_def next_segment_def)
  have n: "\<not> sorted [0, 1 / 10, 1 / 20 :: real]"
  proof
    assume "sorted [0, 1 / 10, 1 / 20 :: real]"
    then have "(1 / 10 :: real) \<le> 1 / 20" by (simp only: sorted2)
    then show False by simp
  qed
  show ?thesis by (intro conjI t s n)
qed

subsection \<open>Further evaluations\<close>

text \<open>
  The final filter of the character splitter (line 213) also drops text: when the
  padding has pushed the current start beyond the segment's end, the last block is
  removed, here with the words \<open>ddd\<close> and \<open>eee\<close>.
\<close>

lemma tiny_long_segment_words_lost:
  "map seg_text (derived tiny_long_segment (5 * 1) 7 1) = [''aaa'', ''bbb'' @ newline @ ''ccc'']"
  by code_simp

text \<open>Scenarios A and D as written to the stream.\<close>

lemma scenario_a_written:
  "written (format_subtitles NoFault [scenario_a] 80 7 2)
     = [''1'' @ newline, ''00:00:00,000 --> 00:00:05,000'' @ newline,
        ''Hello world'' @ newline @ newline]"
proof -
  have s: "split_segment scenario_a (80 * 2) 7 2 = Inr Same" by code_simp
  have "cue_writes (mk_cue 80 2 1 scenario_a)
          = [''1'' @ newline, ''00:00:00,000 --> 00:00:05,000'' @ newline,
             ''Hello world'' @ newline @ newline]"
    by code_simp
  then show ?thesis unfolding format_subtitles_single_Same[OF s] by simp
qed

lemma scenario_d_written:
  "written (format_subtitles NoFault [scenario_d] 80 7 2)
     = [''1'' @ newline, ''00:00:05,000 --> 00:00:05,100'' @ newline,
        ''hi'' @ newline @ newline]"
proof -
  have "cue_writes (mk_cue 80 2 1 scenario_d)
          = [''1'' @ newline, ''00:00:05,000 --> 00:00:05,100'' @ newline,
             ''hi'' @ newline @ newline]"
    by code_simp
  then show ?thesis unfolding scenario_d_out by simp
qed

end
